theory Spec2Isabelle
  imports Main "HOL-Library.Word" "HOL-Library.Monad_Syntax"
begin

unbundle bit_operations_syntax

section \<open>Data model of a5hash.h\<close>

text \<open>
  The header works on \<open>uint8_t\<close>, \<open>uint32_t\<close> and \<open>uint64_t\<close>; the branch of
  \<open>a5hash_umul128\<close> for compilers with \<open>__SIZEOF_INT128__\<close> also uses \<open>__uint128_t\<close>.
  All of them are unsigned and wrap around, as the word types do.
\<close>

type_synonym u8 = "8 word"
type_synonym u32 = "32 word"
type_synonym u64 = "64 word"
type_synonym u128 = "128 word"

text \<open>Lines 111--112: the two bit-pair masks.\<close>

definition A5HASH_VAL10 :: u64 where
  "A5HASH_VAL10 = 0xAAAAAAAAAAAAAAAA"

definition A5HASH_VAL01 :: u64 where
  "A5HASH_VAL01 = 0x5555555555555555"

subsection \<open>Memory and the unaligned loads\<close>

text \<open>
  \<open>a5hash\<close> receives a pointer \<open>Msg0\<close> and a length. The memory is modelled by the
  bytes that may be read relative to \<open>Msg0\<close>: offset \<open>i\<close> holds \<open>Some b\<close> when the byte
  \<open>Msg0[i]\<close> is readable and \<open>None\<close> when it is not. Offsets are integers, so that a
  pointer computed below \<open>Msg0\<close> is an offset below \<open>0\<close> and not silently \<open>0\<close>. A null
  pointer is the memory with no readable byte. Every load is a value of type
  \<open>option\<close>: reading an unreadable byte is \<open>None\<close>, and \<open>None\<close> is passed on to the
  result of the whole function.
\<close>

type_synonym memory = "int \<Rightarrow> u8 option"

text \<open>A buffer holding exactly the bytes of a list, and nothing else.\<close>

definition mem_of :: "u8 list \<Rightarrow> memory" where
  "mem_of msg i = (if 0 \<le> i \<and> i < int (length msg) then Some (msg ! nat i) else None)"

text \<open>\<open>memcpy (&v, p, n)\<close>: the \<open>n\<close> bytes at \<open>p\<close>, \<open>p + 1\<close>, ...\<close>

fun load_bytes :: "memory \<Rightarrow> int \<Rightarrow> nat \<Rightarrow> u8 list option" where
  "load_bytes mem p 0 = Some []"
| "load_bytes mem p (Suc n) =
     (case mem p of
        None \<Rightarrow> None
      | Some b \<Rightarrow> (case load_bytes mem (p + 1) n of
                    None \<Rightarrow> None
                  | Some bs \<Rightarrow> Some (b # bs)))"

text \<open>
  The value of an integer object whose bytes are \<open>bs\<close>, first byte least significant:
  the little-endian reading that the specification assumes for the loaders.
\<close>

fun bytes_le :: "u8 list \<Rightarrow> 'a::len word" where
  "bytes_le [] = 0"
| "bytes_le (b # bs) = ucast b OR push_bit 8 (bytes_le bs)"

text \<open>Lines 202--208: \<open>uint32_t v; memcpy (&v, p, 4); return v;\<close> with result type
  \<open>uint64_t\<close>.\<close>

definition a5hash_lu32 :: "memory \<Rightarrow> int \<Rightarrow> u64 option" where
  "a5hash_lu32 mem p = map_option (\<lambda>bs. ucast (bytes_le bs :: u32)) (load_bytes mem p 4)"

text \<open>Lines 210--216: \<open>uint64_t v; memcpy (&v, p, 8); return v;\<close>\<close>

definition a5hash_lu64 :: "memory \<Rightarrow> int \<Rightarrow> u64 option" where
  "a5hash_lu64 mem p = map_option bytes_le (load_bytes mem p 8)"

subsection \<open>The 64 by 64 to 128 bit multiplication\<close>

text \<open>
  \<open>a5hash_umul128\<close> (lines 229--274) has five bodies, one per build target, selected by
  the preprocessor. All five are embedded, in the order of the source. The out-parameters
  \<open>*rl\<close> and \<open>*rh\<close> are returned as the pair \<open>(rl, rh)\<close>; \<open>u\<close> and \<open>v\<close> are passed by
  value, so a caller that passes the address of a variable it also passes as \<open>u\<close> still
  multiplies the old value.
\<close>

datatype umul_impl = Msvc_umulh | Msvc_umul128 | Int128 | Ibm_mulhdu | Portable32

text \<open>
  Modelled from the spec: the intrinsic \<open>__umulh\<close> of the Microsoft compiler, called at
  line 236, is declared by the compiler's \<open>intrin.h\<close> and is not in the repository.
  Section 4.2 of the specification asks for the semantics of native 128-bit unsigned
  multiplication: the intrinsic returns the high 64 bits of the exact product.
\<close>

definition intrinsic_umulh :: "u64 \<Rightarrow> u64 \<Rightarrow> u64" where
  "intrinsic_umulh u v = word_of_nat (unat u * unat v div 18446744073709551616)"

text \<open>
  Modelled from the spec: the intrinsic \<open>_umul128\<close> of the Microsoft compiler, called at
  line 240, is declared by the compiler's \<open>intrin.h\<close> and is not in the repository. It
  returns the low 64 bits of the exact product and stores the high 64 bits through its
  third argument; the model returns the pair (returned value, stored value).
\<close>

definition intrinsic_umul128 :: "u64 \<Rightarrow> u64 \<Rightarrow> u64 \<times> u64" where
  "intrinsic_umul128 u v =
     (word_of_nat (unat u * unat v mod 18446744073709551616),
      word_of_nat (unat u * unat v div 18446744073709551616))"

text \<open>
  Modelled from the spec: the built-in \<open>__mulhdu\<close> of the IBM compilers, called at line
  253, is no code of the repository. It returns the high 64 bits of the exact product of
  two unsigned 64-bit values.
\<close>

definition intrinsic_mulhdu :: "u64 \<Rightarrow> u64 \<Rightarrow> u64" where
  "intrinsic_mulhdu u v = word_of_nat (unat u * unat v div 18446744073709551616)"

text \<open>Lines 235--236: \<open>*rl = u * v; *rh = __umulh (u, v);\<close>\<close>

definition umul128_msvc_umulh :: "u64 \<Rightarrow> u64 \<Rightarrow> u64 \<times> u64" where
  "umul128_msvc_umulh u v = (u * v, intrinsic_umulh u v)"

text \<open>Line 240: \<open>*rl = _umul128 (u, v, rh);\<close> The value returned goes to \<open>*rl\<close>, the
  intrinsic itself writes \<open>*rh\<close>.\<close>

definition umul128_msvc_umul128 :: "u64 \<Rightarrow> u64 \<Rightarrow> u64 \<times> u64" where
  "umul128_msvc_umul128 u v =
     (case intrinsic_umul128 u v of (returned, stored) \<Rightarrow> (returned, stored))"

text \<open>Lines 245--248:
  \<open>r = (__uint128_t) u * v; *rl = (uint64_t) r; *rh = (uint64_t) (r >> 64);\<close>\<close>

definition umul128_int128 :: "u64 \<Rightarrow> u64 \<Rightarrow> u64 \<times> u64" where
  "umul128_int128 u v =
     (let r = (ucast u :: u128) * ucast v
      in (ucast r, ucast (drop_bit 64 r)))"

text \<open>Lines 252--253: \<open>*rl = u * v; *rh = __mulhdu (u, v);\<close>\<close>

definition umul128_ibm_mulhdu :: "u64 \<Rightarrow> u64 \<Rightarrow> u64 \<times> u64" where
  "umul128_ibm_mulhdu u v = (u * v, intrinsic_mulhdu u v)"

text \<open>Lines 260--271, the body adapted from Hacker's Delight. Every cast of the source is
  a \<open>ucast\<close>, every sum and product is one of \<open>uint64_t\<close>.\<close>

definition umul128_portable :: "u64 \<Rightarrow> u64 \<Rightarrow> u64 \<times> u64" where
  "umul128_portable u v =
     (let rl = u * v;
          u0 = (ucast u :: u32);
          v0 = (ucast v :: u32);
          w0 = (ucast u0 :: u64) * ucast v0;
          u1 = (ucast (drop_bit 32 u) :: u32);
          v1 = (ucast (drop_bit 32 v) :: u32);
          t = (ucast u1 :: u64) * ucast v0 + ucast (ucast (drop_bit 32 w0) :: u32);
          w1 = (ucast u0 :: u64) * ucast v1 + ucast (ucast t :: u32);
          rh = (ucast u1 :: u64) * ucast v1 + ucast (ucast (drop_bit 32 w1) :: u32)
                 + ucast (ucast (drop_bit 32 t) :: u32)
      in (rl, rh))"

definition a5hash_umul128 :: "umul_impl \<Rightarrow> u64 \<Rightarrow> u64 \<Rightarrow> u64 \<times> u64" where
  "a5hash_umul128 impl u v =
     (case impl of
        Msvc_umulh \<Rightarrow> umul128_msvc_umulh u v
      | Msvc_umul128 \<Rightarrow> umul128_msvc_umul128 u v
      | Int128 \<Rightarrow> umul128_int128 u v
      | Ibm_mulhdu \<Rightarrow> umul128_ibm_mulhdu u v
      | Portable32 \<Rightarrow> umul128_portable u v)"

text \<open>The exact product of the specification, cut into its low and high 64 bits.\<close>

definition exact_mul128 :: "u64 \<Rightarrow> u64 \<Rightarrow> u64 \<times> u64" where
  "exact_mul128 u v =
     (word_of_nat (unat u * unat v mod 18446744073709551616),
      word_of_nat (unat u * unat v div 18446744073709551616))"

subsection \<open>a5hash\<close>

text \<open>
  \<open>MsgLen\<close> has type \<open>size_t\<close>, whose width depends on the target. It is a natural
  number here. The function never lets it wrap: it is compared, shifted right, converted to
  \<open>uint64_t\<close> (\<open>word_of_nat\<close>, which drops the bits above 64 as the C conversion does),
  added to a pointer, and decreased by 16 only in the loop, which is entered with
  \<open>MsgLen \<ge> 17\<close> and repeated while \<open>MsgLen > 16\<close>. The pointer \<open>Msg\<close> is its offset from
  \<open>Msg0\<close>.

  The body of \<open>a5hash\<close> (lines 291--369) is embedded in the order of the source: the
  initialisation, the choice of \<open>a\<close> and \<open>b\<close> for messages of at most 16 bytes, the loop
  for longer ones, and the two final multiplications.
\<close>

text \<open>Lines 296--308. The multiplication writes \<open>Seed1\<close> and \<open>Seed2\<close>.\<close>

definition a5hash_init :: "umul_impl \<Rightarrow> nat \<Rightarrow> u64 \<Rightarrow> u64 \<times> u64 \<times> u64" where
  "a5hash_init impl MsgLen UseSeed =
     (let val01 = A5HASH_VAL01;
          val10 = A5HASH_VAL10;
          Seed1 = 0x243F6A8885A308D3 XOR word_of_nat MsgLen;
          Seed2 = 0x452821E638D01377 XOR word_of_nat MsgLen;
          (Seed1, Seed2) = a5hash_umul128 impl (Seed2 XOR (UseSeed AND val10))
                             (Seed1 XOR (UseSeed AND val01));
          val10 = val10 XOR Seed2
      in (Seed1, Seed2, val10))"

text \<open>Line 315: \<open>mo = MsgLen >> 3\<close>.\<close>

definition a5hash_mo :: "nat \<Rightarrow> nat" where
  "a5hash_mo MsgLen = drop_bit 3 MsgLen"

text \<open>Lines 312--341, the branch \<open>MsgLen < 17\<close>: the values of \<open>a\<close> and \<open>b\<close>.\<close>

definition a5hash_small :: "memory \<Rightarrow> int \<Rightarrow> nat \<Rightarrow> (u64 \<times> u64) option" where
  "a5hash_small mem Msg MsgLen =
     (if MsgLen > 3 then
        (let Msg4 = Msg + int MsgLen - 4;
             mo = a5hash_mo MsgLen
         in do {
           a_hi \<leftarrow> a5hash_lu32 mem Msg;
           a_lo \<leftarrow> a5hash_lu32 mem Msg4;
           b_hi \<leftarrow> a5hash_lu32 mem (Msg + int (mo * 4));
           b_lo \<leftarrow> a5hash_lu32 mem (Msg4 - int (mo * 4));
           Some (push_bit 32 a_hi OR a_lo, push_bit 32 b_hi OR b_lo)
         })
      else if MsgLen \<noteq> 0 then do {
           m0 \<leftarrow> mem Msg;
           if MsgLen \<noteq> 1 then do {
             m1 \<leftarrow> mem (Msg + 1);
             if MsgLen \<noteq> 2 then do {
               m2 \<leftarrow> mem (Msg + 2);
               Some (ucast m0 OR push_bit 8 (ucast m1) OR push_bit 16 (ucast m2), 0)
             }
             else Some (ucast m0 OR push_bit 8 (ucast m1), 0)
           }
           else Some (ucast m0, 0)
         }
      else Some (0, 0))"

text \<open>
  Lines 347--358, the \<open>do ... while (MsgLen > 16)\<close> loop: the body runs once before the
  condition is looked at. The result is the state at the exit of the loop.
\<close>

function a5hash_loop ::
  "umul_impl \<Rightarrow> memory \<Rightarrow> u64 \<Rightarrow> u64 \<Rightarrow> int \<Rightarrow> nat \<Rightarrow> u64 \<Rightarrow> u64
     \<Rightarrow> (int \<times> nat \<times> u64 \<times> u64) option" where
  "a5hash_loop impl mem val01 val10 Msg MsgLen Seed1 Seed2 =
     (case a5hash_lu64 mem Msg of
        None \<Rightarrow> None
      | Some x \<Rightarrow>
     (case a5hash_lu64 mem (Msg + 8) of
        None \<Rightarrow> None
      | Some y \<Rightarrow>
          (let (Seed1, Seed2) = a5hash_umul128 impl (Seed1 XOR x) (Seed2 XOR y);
               MsgLen = MsgLen - 16;
               Msg = Msg + 16;
               Seed1 = Seed1 + val01;
               Seed2 = Seed2 + val10
           in if MsgLen > 16
              then a5hash_loop impl mem val01 val10 Msg MsgLen Seed1 Seed2
              else Some (Msg, MsgLen, Seed1, Seed2))))"
  by pat_completeness auto
termination
  by (relation "measure (\<lambda>(impl, mem, val01, val10, Msg, MsgLen, Seed1, Seed2). MsgLen)") auto

declare a5hash_loop.simps [simp del]

text \<open>Lines 364--368.\<close>

definition a5hash_final :: "umul_impl \<Rightarrow> u64 \<Rightarrow> u64 \<Rightarrow> u64 \<Rightarrow> u64 \<Rightarrow> u64 \<Rightarrow> u64" where
  "a5hash_final impl val01 Seed1 Seed2 a b =
     (let (Seed1, Seed2) = a5hash_umul128 impl (Seed1 XOR a) (Seed2 XOR b);
          (Seed1, Seed2) = a5hash_umul128 impl (Seed1 XOR val01) Seed2
      in Seed1 XOR Seed2)"

definition a5hash :: "umul_impl \<Rightarrow> memory \<Rightarrow> nat \<Rightarrow> u64 \<Rightarrow> u64 option" where
  "a5hash impl mem MsgLen UseSeed =
     (let Msg = 0;
          val01 = A5HASH_VAL01;
          (Seed1, Seed2, val10) = a5hash_init impl MsgLen UseSeed
      in if MsgLen < 17 then do {
           (a, b) \<leftarrow> a5hash_small mem Msg MsgLen;
           Some (a5hash_final impl val01 Seed1 Seed2 a b)
         }
         else
           (let val01 = val01 XOR Seed1
            in do {
              (Msg, MsgLen, Seed1, Seed2) \<leftarrow>
                 a5hash_loop impl mem val01 val10 Msg MsgLen Seed1 Seed2;
              a \<leftarrow> a5hash_lu64 mem (Msg + int MsgLen - 16);
              b \<leftarrow> a5hash_lu64 mem (Msg + int MsgLen - 8);
              Some (a5hash_final impl val01 Seed1 Seed2 a b)
            }))"

text \<open>The call on a buffer that holds the bytes of \<open>msg\<close> and has their number as length.\<close>

definition a5hash_bytes :: "umul_impl \<Rightarrow> u8 list \<Rightarrow> u64 \<Rightarrow> u64 option" where
  "a5hash_bytes impl msg UseSeed = a5hash impl (mem_of msg) (length msg) UseSeed"

subsection \<open>a5rand\<close>

text \<open>
  Lines 392--404. The two state words are read through the pointers \<open>Seed1\<close> and
  \<open>Seed2\<close>, replaced by the halves of the product, and written back; the model takes
  the state as a pair and returns the output together with the new state.
\<close>

definition a5rand :: "umul_impl \<Rightarrow> u64 \<times> u64 \<Rightarrow> u64 \<times> (u64 \<times> u64)" where
  "a5rand impl st =
     (let s1 = fst st;
          s2 = snd st;
          (s1, s2) = a5hash_umul128 impl (s1 + A5HASH_VAL01) (s2 + A5HASH_VAL10)
      in (s1 XOR s2, (s1, s2)))"

text \<open>The state after \<open>n\<close> calls.\<close>

definition a5rand_state :: "umul_impl \<Rightarrow> nat \<Rightarrow> u64 \<times> u64 \<Rightarrow> u64 \<times> u64" where
  "a5rand_state impl n st = ((\<lambda>s. snd (a5rand impl s)) ^^ n) st"

text \<open>
  Lines 314--320: the four pointers that the branch \<open>MsgLen > 3\<close> passes to
  \<open>a5hash_lu32\<close>, in the order \<open>a\<close> high, \<open>a\<close> low, \<open>b\<close> high, \<open>b\<close> low.
\<close>

definition a5hash_small_windows :: "int \<Rightarrow> nat \<Rightarrow> int list" where
  "a5hash_small_windows Msg MsgLen =
     (let Msg4 = Msg + int MsgLen - 4;
          mo = a5hash_mo MsgLen
      in [Msg, Msg4, Msg + int (mo * 4), Msg4 - int (mo * 4)])"

subsection \<open>The algorithm in the words of the specification\<close>

text \<open>
  The definitions of this subsection follow section 4.3 and 4.4 of the specification, not
  the code: the message is a list of bytes, a load at offset \<open>k\<close> takes the bytes from
  \<open>k\<close> on, the multiplication is the exact product, and the long path is a \<open>while\<close>
  loop. The theorems compare them with the embedding of the code.
\<close>

definition spec_load4 :: "u8 list \<Rightarrow> nat \<Rightarrow> u64" where
  "spec_load4 m k = ucast (bytes_le (take 4 (drop k m)) :: u32)"

definition spec_load8 :: "u8 list \<Rightarrow> nat \<Rightarrow> u64" where
  "spec_load8 m k = bytes_le (take 8 (drop k m))"

text \<open>Steps 1 to 3: the masks, the two seeds, and the fold of the caller's seed. The
  result is \<open>(Seed1, Seed2, val10)\<close>.\<close>

definition spec_seed_fold :: "nat \<Rightarrow> u64 \<Rightarrow> u64 \<times> u64 \<times> u64" where
  "spec_seed_fold n seed =
     (let val01 = 0x5555555555555555;
          val10 = 0xAAAAAAAAAAAAAAAA;
          Seed1 = 0x243F6A8885A308D3 XOR word_of_nat n;
          Seed2 = 0x452821E638D01377 XOR word_of_nat n;
          (lo, hi) = exact_mul128 (Seed2 XOR (seed AND val10)) (Seed1 XOR (seed AND val01))
      in (lo, hi, val10 XOR hi))"

text \<open>Step 6.\<close>

definition spec_finalize :: "u64 \<Rightarrow> u64 \<Rightarrow> u64 \<Rightarrow> u64 \<Rightarrow> u64 \<Rightarrow> u64" where
  "spec_finalize val01 Seed1 Seed2 a b =
     (let (Seed1, Seed2) = exact_mul128 (Seed1 XOR a) (Seed2 XOR b);
          (Seed1, Seed2) = exact_mul128 (Seed1 XOR val01) Seed2
      in Seed1 XOR Seed2)"

text \<open>Step 4 for at most 16 bytes: the digest from \<open>a\<close> and \<open>b\<close>, with \<open>val01\<close>
  unchanged.\<close>

definition spec_small_digest :: "nat \<Rightarrow> u64 \<Rightarrow> u64 \<Rightarrow> u64 \<Rightarrow> u64" where
  "spec_small_digest n seed a b =
     (let (Seed1, Seed2, val10) = spec_seed_fold n seed
      in spec_finalize 0x5555555555555555 Seed1 Seed2 a b)"

text \<open>Step 4, lengths 0 to 3: byte 0 in bits 0--7, byte 1 in bits 8--15 if present,
  byte 2 in bits 16--23 if present.\<close>

definition spec_short_a :: "u8 list \<Rightarrow> u64" where
  "spec_short_a m =
     (if 0 < length m then ucast (m ! 0) else 0)
     OR (if 1 < length m then push_bit 8 (ucast (m ! 1)) else 0)
     OR (if 2 < length m then push_bit 16 (ucast (m ! 2)) else 0)"

text \<open>Step 5: while more than 16 bytes remain, mix, advance by 16, accumulate. The
  result is the position reached, the number of bytes that remain, and the two seeds.\<close>

function spec_stream_while ::
  "u8 list \<Rightarrow> u64 \<Rightarrow> u64 \<Rightarrow> nat \<Rightarrow> nat \<Rightarrow> u64 \<Rightarrow> u64 \<Rightarrow> nat \<times> nat \<times> u64 \<times> u64" where
  "spec_stream_while m val01 val10 pos remaining Seed1 Seed2 =
     (if remaining > 16 then
        (let (lo, hi) = exact_mul128 (Seed1 XOR spec_load8 m pos) (Seed2 XOR spec_load8 m (pos + 8))
         in spec_stream_while m val01 val10 (pos + 16) (remaining - 16) (lo + val01) (hi + val10))
      else (pos, remaining, Seed1, Seed2))"
  by pat_completeness auto
termination
  by (relation "measure (\<lambda>(m, val01, val10, pos, remaining, Seed1, Seed2). remaining)") auto

declare spec_stream_while.simps [simp del]

definition spec_stream_digest :: "u8 list \<Rightarrow> u64 \<Rightarrow> u64" where
  "spec_stream_digest m seed =
     (let n = length m;
          (Seed1, Seed2, val10) = spec_seed_fold n seed;
          val01 = 0x5555555555555555 XOR Seed1;
          (pos, remaining, Seed1, Seed2) = spec_stream_while m val01 val10 0 n Seed1 Seed2;
          a = spec_load8 m (n - 16);
          b = spec_load8 m (n - 8)
      in spec_finalize val01 Seed1 Seed2 a b)"

text \<open>Section 4.4: one step of the generator on the state \<open>(s1, s2)\<close>, as output and new
  state.\<close>

definition spec_rand_step :: "u64 \<times> u64 \<Rightarrow> u64 \<times> (u64 \<times> u64)" where
  "spec_rand_step st =
     (let p = unat (fst st + 0x5555555555555555) * unat (snd st + 0xAAAAAAAAAAAAAAAA);
          lo = word_of_nat (p mod 18446744073709551616);
          hi = word_of_nat (p div 18446744073709551616)
      in (lo XOR hi, (lo, hi)))"



section \<open>The multiplication is exact\<close>

lemma unat_ucast_mod:
  "unat (ucast (w :: 'a::len word) :: 'b::len word) = unat w mod 2 ^ LENGTH('b)"
  by (simp add: unsigned_ucast_eq take_bit_eq_mod)

lemma unat_drop_bit_div: "unat (drop_bit n w) = unat w div 2 ^ n"
  unfolding unat_drop_bit_eq by (rule drop_bit_eq_div)

lemma unat_lt32: "unat (w :: u32) < 4294967296"
  using unsigned_less [of w, where ?'a = nat] by simp

lemma unat_lt64: "unat (w :: u64) < 18446744073709551616"
  using unsigned_less [of w, where ?'a = nat] by simp

lemma unat_lo32: "unat (ucast (w :: u64) :: u32) = unat w mod 4294967296"
  by (simp add: unat_ucast_mod)

lemma unat_up64: "unat (ucast (w :: u32) :: u64) = unat w"
  using unat_lt32 [of w] by (simp add: unat_ucast_mod)

lemma unat_hi32: "unat (ucast (drop_bit 32 (w :: u64)) :: u32) = unat w div 4294967296"
proof -
  have "unat w div 4294967296 < 4294967296"
    using unat_lt64 [of w] by simp
  then show ?thesis by (simp add: unat_ucast_mod unat_drop_bit_div)
qed

lemma prod32_le:
  fixes a b :: nat
  assumes "a < 4294967296" "b < 4294967296"
  shows "a * b \<le> 18446744065119617025"
proof -
  have "a * b \<le> 4294967295 * 4294967295"
    using assms by (intro mult_le_mono) simp_all
  then show ?thesis by simp
qed

lemma unat_mul32:
  fixes a b :: u32
  shows "unat ((ucast a :: u64) * ucast b) = unat a * unat b"
proof -
  have "unat a * unat b \<le> 18446744065119617025"
    using unat_lt32 [of a] unat_lt32 [of b] by (rule prod32_le)
  then have "unat (ucast a :: u64) * unat (ucast b :: u64) < 2 ^ LENGTH(64)"
    by (simp add: unat_up64)
  then show ?thesis by (simp add: unat_mult_lem [THEN iffD1] unat_up64)
qed

lemma unat_add64:
  fixes a b :: u64
  shows "unat a + unat b < 18446744073709551616 \<Longrightarrow> unat (a + b) = unat a + unat b"
  using unat_add_lem [of a b] by simp

text \<open>Long multiplication in base \<open>B\<close>: the carries \<open>q0\<close>, \<open>qt\<close> and \<open>q1\<close> of the three
  partial sums end in the high half.\<close>

lemma long_mul_alg:
  fixes u0 u1 v0 v1 B :: nat
  assumes w0: "u0 * v0 = q0 * B + r0"
    and t: "u1 * v0 + q0 = qt * B + rt"
    and w1: "u0 * v1 + rt = q1 * B + r1"
  shows "(u1 * B + u0) * (v1 * B + v0) = (u1 * v1 + q1 + qt) * (B * B) + (r1 * B + r0)"
proof -
  have "(u1 * B + u0) * (v1 * B + v0) = u1 * v1 * (B * B) + (u1 * v0 + u0 * v1) * B + u0 * v0"
    by (simp add: algebra_simps)
  also have "\<dots> = u1 * v1 * (B * B) + (u1 * v0 + q0 + u0 * v1) * B + r0"
    unfolding w0 by (simp add: algebra_simps)
  also have "\<dots> = u1 * v1 * (B * B) + (qt * B + rt + u0 * v1) * B + r0"
    unfolding t by simp
  also have "\<dots> = u1 * v1 * (B * B) + qt * (B * B) + (u0 * v1 + rt) * B + r0"
    by (simp add: algebra_simps)
  also have "\<dots> = u1 * v1 * (B * B) + qt * (B * B) + (q1 * B + r1) * B + r0"
    unfolding w1 by simp
  finally show ?thesis by (simp add: algebra_simps)
qed

lemma long_mul_nat:
  fixes u0 u1 v0 v1 :: nat
  defines "w0 \<equiv> u0 * v0"
  defines "t \<equiv> u1 * v0 + w0 div 4294967296"
  defines "w1 \<equiv> u0 * v1 + t mod 4294967296"
  shows "(u1 * 4294967296 + u0) * (v1 * 4294967296 + v0) =
         (u1 * v1 + w1 div 4294967296 + t div 4294967296) * 18446744073709551616
           + (w1 mod 4294967296 * 4294967296 + w0 mod 4294967296)"
  using long_mul_alg [of u0 v0 "w0 div 4294967296" 4294967296 "w0 mod 4294967296"
      u1 "t div 4294967296" "t mod 4294967296" v1 "w1 div 4294967296" "w1 mod 4294967296"]
  by (simp add: w0_def t_def w1_def)

lemma umul128_portable_hi:
  "unat (snd (umul128_portable u v)) = unat u * unat v div 18446744073709551616"
proof -
  define u0 where "u0 = (ucast u :: u32)"
  define v0 where "v0 = (ucast v :: u32)"
  define u1 where "u1 = (ucast (drop_bit 32 u) :: u32)"
  define v1 where "v1 = (ucast (drop_bit 32 v) :: u32)"
  define w0 where "w0 = (ucast u0 :: u64) * ucast v0"
  define t where "t = (ucast u1 :: u64) * ucast v0 + ucast (ucast (drop_bit 32 w0) :: u32)"
  define w1 where "w1 = (ucast u0 :: u64) * ucast v1 + ucast (ucast t :: u32)"
  define rh where "rh = (ucast u1 :: u64) * ucast v1 + ucast (ucast (drop_bit 32 w1) :: u32)
                 + ucast (ucast (drop_bit 32 t) :: u32)"
  define U0 U1 V0 V1 where "U0 = unat u0" and "U1 = unat u1" and "V0 = unat v0" and "V1 = unat v1"
  define W0 where "W0 = U0 * V0"
  define T where "T = U1 * V0 + W0 div 4294967296"
  define W1 where "W1 = U0 * V1 + T mod 4294967296"
  have b: "U0 < 4294967296" "U1 < 4294967296" "V0 < 4294967296" "V1 < 4294967296"
    by (simp_all add: U0_def U1_def V0_def V1_def unat_lt32)
  have p: "U0 * V0 \<le> 18446744065119617025" "U1 * V0 \<le> 18446744065119617025"
    "U0 * V1 \<le> 18446744065119617025" "U1 * V1 \<le> 18446744065119617025"
    using b by (simp_all add: prod32_le)
  have snd_eq: "snd (umul128_portable u v) = rh"
    by (simp add: umul128_portable_def Let_def rh_def w1_def t_def w0_def u0_def u1_def v0_def v1_def)
  have w0: "unat w0 = W0"
    by (simp add: w0_def W0_def U0_def V0_def unat_mul32)
  have W0lt: "W0 div 4294967296 < 4294967296"
    using p(1) by (simp add: W0_def)
  have t: "unat t = T"
    unfolding t_def T_def
    by (subst unat_add64)
      (use p(2) W0lt in \<open>simp_all add: unat_mul32 unat_up64 unat_hi32 w0 U1_def V0_def\<close>)
  have Tmod: "T mod 4294967296 < 4294967296" by simp
  have Tlt: "T < 18446744073709551616"
    using unat_lt64 [of t] by (simp add: t)
  then have Tdiv: "T div 4294967296 < 4294967296" by simp
  have w1: "unat w1 = W1"
    unfolding w1_def W1_def
    by (subst unat_add64)
      (use p(3) Tmod in \<open>simp_all add: unat_mul32 unat_up64 unat_lo32 t U0_def V1_def\<close>)
  have W1lt: "W1 < 18446744073709551616"
    using unat_lt64 [of w1] by (simp add: w1)
  then have W1div: "W1 div 4294967296 < 4294967296" by simp
  have s1: "unat ((ucast u1 :: u64) * ucast v1 + ucast (ucast (drop_bit 32 w1) :: u32))
              = U1 * V1 + W1 div 4294967296"
    by (subst unat_add64)
      (use p(4) W1div in \<open>simp_all add: unat_mul32 unat_up64 unat_hi32 w1 U1_def V1_def\<close>)
  have rh: "unat rh = U1 * V1 + W1 div 4294967296 + T div 4294967296"
    unfolding rh_def
    by (subst unat_add64)
      (use p(4) W1div Tdiv in \<open>simp_all add: s1 unat_up64 unat_hi32 t\<close>)
  have "U0 = unat u mod 4294967296"
    by (simp only: U0_def u0_def unat_lo32)
  moreover have "U1 = unat u div 4294967296"
    by (simp only: U1_def u1_def unat_hi32)
  ultimately have U: "unat u = U1 * 4294967296 + U0"
    by simp
  have "V0 = unat v mod 4294967296"
    by (simp only: V0_def v0_def unat_lo32)
  moreover have "V1 = unat v div 4294967296"
    by (simp only: V1_def v1_def unat_hi32)
  ultimately have V: "unat v = V1 * 4294967296 + V0"
    by simp
  have "unat u * unat v = unat rh * 18446744073709551616
          + (W1 mod 4294967296 * 4294967296 + W0 mod 4294967296)"
    unfolding U V rh W1_def T_def W0_def by (rule long_mul_nat)
  moreover have "W1 mod 4294967296 * 4294967296 + W0 mod 4294967296 < 18446744073709551616"
  proof -
    have "W1 mod 4294967296 \<le> 4294967295" "W0 mod 4294967296 \<le> 4294967295"
      by (simp_all add: less_Suc_eq_le [symmetric])
    then show ?thesis by simp
  qed
  ultimately have "unat u * unat v div 18446744073709551616 = unat rh"
    by simp
  then show ?thesis by (simp add: snd_eq)
qed

lemma umul128_portable_eq: "umul128_portable u v = exact_mul128 u v"
proof -
  have "fst (umul128_portable u v) = u * v"
    by (simp add: umul128_portable_def Let_def)
  moreover have "u * v = word_of_nat (unat u * unat v mod 18446744073709551616)"
    by (simp add: word_eq_iff_unsigned [where ?'a = nat] unat_word_ariths unat_of_nat)
  moreover have "snd (umul128_portable u v) = word_of_nat (unat u * unat v div 18446744073709551616)"
    by (simp add: umul128_portable_hi [symmetric])
  ultimately show ?thesis
    by (simp add: exact_mul128_def prod_eq_iff)
qed

lemma unat_mul128:
  fixes u v :: u64
  shows "unat ((ucast u :: u128) * ucast v) = unat u * unat v"
proof -
  have "unat u * unat v \<le> 18446744073709551615 * 18446744073709551615"
    using unat_lt64 [of u] unat_lt64 [of v] by (intro mult_le_mono) simp_all
  then have "unat (ucast u :: u128) * unat (ucast v :: u128) < 2 ^ LENGTH(128)"
    using unat_lt64 [of u] unat_lt64 [of v] by (simp add: unat_ucast_mod)
  then show ?thesis
    using unat_lt64 [of u] unat_lt64 [of v]
    by (simp add: unat_mult_lem [THEN iffD1] unat_ucast_mod)
qed

lemma umul128_int128_eq: "umul128_int128 u v = exact_mul128 u v"
proof -
  have "unat u * unat v \<le> 18446744073709551615 * 18446744073709551615"
    using unat_lt64 [of u] unat_lt64 [of v] by (intro mult_le_mono) simp_all
  then have d: "unat u * unat v div 18446744073709551616 < 18446744073709551616"
    by simp
  show ?thesis
    using d
    by (simp add: umul128_int128_def exact_mul128_def Let_def
        word_eq_iff_unsigned [where ?'a = nat] unat_ucast_mod unat_drop_bit_div unat_mul128
        unat_of_nat)
qed

lemma mul_low_half:
  fixes u v :: u64
  shows "u * v = word_of_nat (unat u * unat v mod 18446744073709551616)"
  by (simp add: word_eq_iff_unsigned [where ?'a = nat] unat_word_ariths unat_of_nat)

lemma umul128_msvc_umulh_eq: "umul128_msvc_umulh u v = exact_mul128 u v"
  using mul_low_half [of u v]
  by (simp add: umul128_msvc_umulh_def intrinsic_umulh_def exact_mul128_def)

lemma umul128_msvc_umul128_eq: "umul128_msvc_umul128 u v = exact_mul128 u v"
  by (simp add: umul128_msvc_umul128_def intrinsic_umul128_def exact_mul128_def)

lemma umul128_ibm_mulhdu_eq: "umul128_ibm_mulhdu u v = exact_mul128 u v"
  using mul_low_half [of u v]
  by (simp add: umul128_ibm_mulhdu_def intrinsic_mulhdu_def exact_mul128_def)

lemma a5hash_umul128_exact: "a5hash_umul128 impl u v = exact_mul128 u v"
  by (cases impl)
    (simp_all add: a5hash_umul128_def umul128_msvc_umulh_eq umul128_msvc_umul128_eq
      umul128_int128_eq umul128_ibm_mulhdu_eq umul128_portable_eq)

lemma exact_mul128_value:
  "unat (snd (exact_mul128 u v)) * 18446744073709551616 + unat (fst (exact_mul128 u v))
     = unat u * unat v"
proof -
  have "unat u * unat v \<le> 18446744073709551615 * 18446744073709551615"
    using unat_lt64 [of u] unat_lt64 [of v] by (intro mult_le_mono) simp_all
  then have d: "unat u * unat v div 18446744073709551616 < 18446744073709551616"
    by simp
  show ?thesis using d by (simp add: exact_mul128_def unat_of_nat)
qed

text \<open>
  Claim C1. For all 64-bit \<open>u\<close> and \<open>v\<close>, every body of \<open>a5hash_umul128\<close> (the two with
  \<open>__umulh\<close> and \<open>__mulhdu\<close>, the one with \<open>_umul128\<close>, the one on \<open>__uint128_t\<close> and the
  portable one on 32-bit halves) returns a pair \<open>(rl, rh)\<close> with \<open>rh * 2^64 + rl = u * v\<close>
  over the natural numbers, and any two bodies return the same pair.
\<close>

theorem umul128_exact_product:
  "(case a5hash_umul128 impl u v of
      (rl, rh) \<Rightarrow> unat rh * 2 ^ 64 + unat rl = unat u * unat v)
   \<and> a5hash_umul128 impl u v = a5hash_umul128 impl' u v"
  using exact_mul128_value [of u v]
  by (simp add: a5hash_umul128_exact split_beta)

section \<open>The message paths of a5hash\<close>

lemma load_bytes_mem_of:
  "k + n \<le> length m \<Longrightarrow> load_bytes (mem_of m) (int k) n = Some (take n (drop k m))"
proof (induction n arbitrary: k)
  case 0
  then show ?case by simp
next
  case (Suc n)
  from Suc.prems have k: "k < length m" and "Suc k + n \<le> length m" by simp_all
  then have "load_bytes (mem_of m) (int (Suc k)) n = Some (take n (drop (Suc k) m))"
    by (rule_tac Suc.IH)
  then have "load_bytes (mem_of m) (int k + 1) n = Some (take n (drop (Suc k) m))"
    by (simp add: add.commute)
  moreover have "mem_of m (int k) = Some (m ! k)"
    using k by (simp add: mem_of_def)
  moreover have "take (Suc n) (drop k m) = m ! k # take n (drop (Suc k) m)"
    using k by (simp add: Cons_nth_drop_Suc [symmetric])
  ultimately show ?case by simp
qed

lemma a5hash_lu32_mem_of:
  "k + 4 \<le> length m \<Longrightarrow> a5hash_lu32 (mem_of m) (int k) = Some (spec_load4 m k)"
  by (simp add: a5hash_lu32_def spec_load4_def load_bytes_mem_of)

lemma a5hash_lu64_mem_of:
  "k + 8 \<le> length m \<Longrightarrow> a5hash_lu64 (mem_of m) (int k) = Some (spec_load8 m k)"
  by (simp add: a5hash_lu64_def spec_load8_def load_bytes_mem_of)

lemma a5hash_init_spec: "a5hash_init impl n seed = spec_seed_fold n seed"
  by (simp add: a5hash_init_def spec_seed_fold_def a5hash_umul128_exact
      A5HASH_VAL01_def A5HASH_VAL10_def Let_def split_beta)

lemma a5hash_final_spec: "a5hash_final impl val01 s1 s2 a b = spec_finalize val01 s1 s2 a b"
  by (simp add: a5hash_final_def spec_finalize_def a5hash_umul128_exact)

lemma a5hash_small_digest:
  "n < 17 \<Longrightarrow> a5hash impl mem n seed =
     map_option (\<lambda>(a, b). spec_small_digest n seed a b) (a5hash_small mem 0 n)"
  by (cases "a5hash_small mem 0 n")
    (simp_all add: a5hash_def spec_small_digest_def a5hash_init_spec a5hash_final_spec
      A5HASH_VAL01_def Let_def split_beta)

lemma a5hash_small_short:
  "length m \<le> 3 \<Longrightarrow> a5hash_small (mem_of m) 0 (length m) = Some (spec_short_a m, 0)"
proof -
  assume "length m \<le> 3"
  then consider "m = []" | b0 where "m = [b0]" | b0 b1 where "m = [b0, b1]"
    | b0 b1 b2 where "m = [b0, b1, b2]"
    by (cases m; cases "tl m"; cases "tl (tl m)"; cases "tl (tl (tl m))") auto
  then show ?thesis
    by cases (simp_all add: a5hash_small_def spec_short_a_def mem_of_def)
qed

lemma bit_u8_range: "bit (b :: u8) n \<Longrightarrow> n < 8"
  using bit_imp_le_length [of b n] by simp

lemma div_mod_8:
  fixes n q :: nat
  assumes "8 * q \<le> n" "n < 8 * q + 8"
  shows "n div 8 = q" "n mod 8 = n - 8 * q"
proof -
  show "n div 8 = q" using assms by simp
  then show "n mod 8 = n - 8 * q"
    using mod_div_mult_eq [of n 8] by simp
qed

lemma bit_ucast_u8: "bit (ucast (b :: u8) :: u64) n \<longleftrightarrow> bit b n"
  using bit_u8_range [of b n] by (auto simp add: bit_ucast_iff)

lemma bit_push_ucast_u8:
  "k \<le> 56 \<Longrightarrow> bit (push_bit k (ucast (b :: u8)) :: u64) n \<longleftrightarrow> k \<le> n \<and> bit b (n - k)"
  using bit_u8_range [of b "n - k"] by (auto simp add: bit_push_bit_iff bit_ucast_u8)

lemma spec_short_a_bits:
  assumes "length m \<le> 3"
  shows "bit (spec_short_a m) n \<longleftrightarrow> n < 8 * length m \<and> bit (m ! (n div 8)) (n mod 8)"
proof -
  from assms consider "m = []" | b0 where "m = [b0]" | b0 b1 where "m = [b0, b1]"
    | b0 b1 b2 where "m = [b0, b1, b2]"
    by (cases m; cases "tl m"; cases "tl (tl m)"; cases "tl (tl (tl m))") auto
  then have a: "bit (spec_short_a m) n \<longleftrightarrow>
      (0 < length m \<and> bit (m ! 0) n) \<or> (1 < length m \<and> 8 \<le> n \<and> bit (m ! 1) (n - 8))
       \<or> (2 < length m \<and> 16 \<le> n \<and> bit (m ! 2) (n - 16))"
    by cases (simp_all add: spec_short_a_def bit_or_iff bit_ucast_u8 bit_push_ucast_u8)
  from assms have len: "length m = 0 \<or> length m = 1 \<or> length m = 2 \<or> length m = 3"
    by linarith
  consider "n < 8" | "8 \<le> n" "n < 16" | "16 \<le> n" "n < 24" | "24 \<le> n"
    by linarith
  then show ?thesis
  proof cases
    case 1
    then have "n div 8 = 0" "n mod 8 = n" by simp_all
    with 1 len show ?thesis unfolding a by (elim disjE) simp_all
  next
    case 2
    then have "n div 8 = 1" "n mod 8 = n - 8" using div_mod_8 [of 1 n] by simp_all
    with 2 len show ?thesis unfolding a by (elim disjE) (auto dest: bit_u8_range)
  next
    case 3
    then have "n div 8 = 2" "n mod 8 = n - 16" using div_mod_8 [of 2 n] by simp_all
    with 3 len show ?thesis unfolding a by (elim disjE) (auto dest: bit_u8_range)
  next
    case 4
    with len show ?thesis unfolding a by (elim disjE) (auto dest: bit_u8_range)
  qed
qed

text \<open>
  Claim C3. For a message \<open>m\<close> of 0, 1, 2 or 3 bytes and every seed, the digest is the
  two final multiplications applied to the state left by the initialisation, with
  \<open>val01 = 0x5555555555555555\<close>, \<open>b = 0\<close> and \<open>a\<close> built byte by byte: bit \<open>n\<close> of \<open>a\<close>
  is bit \<open>n mod 8\<close> of byte \<open>n div 8\<close> when that byte is present, and clear otherwise.
\<close>

theorem a5hash_short_message:
  assumes "length m \<le> 3"
  shows "a5hash_bytes impl m seed
           = Some (spec_small_digest (length m) seed (spec_short_a m) 0)
         \<and> (\<forall>n. bit (spec_short_a m) n \<longleftrightarrow> n < 8 * length m \<and> bit (m ! (n div 8)) (n mod 8))"
  using assms
  by (simp add: a5hash_bytes_def a5hash_small_digest a5hash_small_short spec_short_a_bits)

theorem a5hash_short_message_witness:
  "length [1, 2, 3 :: u8] \<le> 3
   \<and> a5hash_bytes Portable32 [1, 2, 3] 0 = Some 0xC82129FD511C0C1C
   \<and> spec_short_a [1, 2, 3] = 0x030201"
  using a5hash_short_message [of "[1, 2, 3]" Portable32 0]
  by (simp add: spec_small_digest_def spec_seed_fold_def spec_finalize_def exact_mul128_def
      spec_short_a_def)

lemma a5hash_mo_div: "a5hash_mo n = n div 8"
  by (simp add: a5hash_mo_def drop_bit_eq_div)

lemma a5hash_small_mid:
  assumes "4 \<le> length m" "length m \<le> 16"
  defines "n \<equiv> length m"
  defines "mo \<equiv> n div 8"
  shows "a5hash_small (mem_of m) 0 n =
           Some (push_bit 32 (spec_load4 m 0) OR spec_load4 m (n - 4),
                 push_bit 32 (spec_load4 m (mo * 4)) OR spec_load4 m (n - 4 - mo * 4))"
proof -
  have mo: "a5hash_mo n = mo" by (simp add: mo_def a5hash_mo_div)
  have mo4: "mo * 4 + 4 \<le> n" "mo * 4 \<le> n - 4"
    using assms(1,2) unfolding mo_def n_def by presburger+
  have p1: "0 + int n - 4 = int (n - 4)"
    using assms(1) by (simp add: n_def)
  have p2: "0 + int (mo * 4) = int (mo * 4)" by simp
  have p3: "int (n - 4) - int (mo * 4) = int (n - 4 - mo * 4)"
    using mo4 by simp
  have l0: "a5hash_lu32 (mem_of m) 0 = Some (spec_load4 m 0)"
    using a5hash_lu32_mem_of [of 0 m] assms(1) by simp
  have l1: "a5hash_lu32 (mem_of m) (int (n - 4)) = Some (spec_load4 m (n - 4))"
    using assms(1) by (intro a5hash_lu32_mem_of) (simp add: n_def)
  have l2: "a5hash_lu32 (mem_of m) (int (mo * 4)) = Some (spec_load4 m (mo * 4))"
    using mo4 by (intro a5hash_lu32_mem_of) (simp add: n_def)
  have l3: "a5hash_lu32 (mem_of m) (int (n - 4 - mo * 4)) = Some (spec_load4 m (n - 4 - mo * 4))"
    using assms(1) by (intro a5hash_lu32_mem_of) (simp add: n_def)
  have "3 < n" using assms(1) by (simp add: n_def)
  then show ?thesis
    unfolding a5hash_small_def Let_def mo p1 p2 p3 l0 l1 l2 l3 by simp
qed

text \<open>
  Claim C4. For a message of 4 to 16 bytes, with \<open>mo = length / 8\<close>, the code computes
  \<open>a = (load4 at 0) << 32 | (load4 of the last 4 bytes)\<close> and
  \<open>b = (load4 at mo * 4) << 32 | (load4 at length - 4 - mo * 4)\<close>, and the digest is the
  finalisation of the specification applied to them.
\<close>

theorem a5hash_mid_message:
  assumes "4 \<le> length m" "length m \<le> 16"
  shows "let n = length m;
             mo = n div 8;
             a = push_bit 32 (spec_load4 m 0) OR spec_load4 m (n - 4);
             b = push_bit 32 (spec_load4 m (mo * 4)) OR spec_load4 m (n - 4 - mo * 4)
         in a5hash_small (mem_of m) 0 n = Some (a, b)
            \<and> a5hash_bytes impl m seed = Some (spec_small_digest n seed a b)"
  using assms a5hash_small_mid [OF assms]
  by (simp add: Let_def a5hash_bytes_def a5hash_small_digest)

theorem a5hash_mid_message_witness:
  "4 \<le> length [1, 2, 3, 4, 5, 6, 7, 8, 9, 10, 11 :: u8]
   \<and> length [1, 2, 3, 4, 5, 6, 7, 8, 9, 10, 11 :: u8] \<le> 16
   \<and> a5hash_small (mem_of [1, 2, 3, 4, 5, 6, 7, 8, 9, 10, 11]) 0
         (length [1, 2, 3, 4, 5, 6, 7, 8, 9, 10, 11 :: u8])
        = Some (0x040302010B0A0908, 0x0807060507060504)
   \<and> a5hash_bytes Int128 [1, 2, 3, 4, 5, 6, 7, 8, 9, 10, 11] 0 = Some 0x867594F548838FEE"
proof -
  have l: "length [1, 2, 3, 4, 5, 6, 7, 8, 9, 10, 11 :: u8] = 11" by simp
  show ?thesis
    using a5hash_mid_message [of "[1, 2, 3, 4, 5, 6, 7, 8, 9, 10, 11]" Int128 0]
    unfolding l Let_def
    by (simp add: spec_load4_def spec_small_digest_def spec_seed_fold_def
        spec_finalize_def exact_mul128_def)
qed

text \<open>
  Claim C5, as the code has it. For a length from 4 to 16 the selector \<open>mo = MsgLen >> 3\<close>
  is 0 for 4 to 7 bytes, 1 for 8 to 15 bytes and 2 for 16 bytes.
\<close>

theorem a5hash_mo_values:
  assumes "4 \<le> n" "n \<le> 16"
  shows "a5hash_mo n = (if n < 8 then 0 else if n < 16 then 1 else 2)"
  using assms by (auto simp add: a5hash_mo_div)

theorem a5hash_mo_values_witness:
  "(4 :: nat) \<le> 16 \<and> (16 :: nat) \<le> 16 \<and> a5hash_mo 16 = 2"
  using a5hash_mo_values [of 16] by simp

text \<open>
  The claim as stated fails at 16 bytes: the selector is 2 there, and the code reads the
  high half of \<open>b\<close> at offset 8 and the low half at offset 4.
\<close>

theorem a5hash_mo_counterexample:
  "(4 :: nat) \<le> 16 \<and> (16 :: nat) \<le> 16 \<and> a5hash_mo 16 \<noteq> 0 \<and> a5hash_mo 16 \<noteq> 1
   \<and> a5hash_small_windows 0 16 = [0, 12, 8, 4]
   \<and> a5hash_small (mem_of [1, 2, 3, 4, 5, 6, 7, 8, 9, 10, 11, 12, 13, 14, 15, 16]) 0 16
        = Some (0x04030201100F0E0D, 0x0C0B0A0908070605)"
proof -
  have l: "length [1, 2, 3, 4, 5, 6, 7, 8, 9, 10, 11, 12, 13, 14, 15, 16 :: u8] = 16" by simp
  have "a5hash_small (mem_of [1, 2, 3, 4, 5, 6, 7, 8, 9, 10, 11, 12, 13, 14, 15, 16]) 0 16
        = Some (0x04030201100F0E0D, 0x0C0B0A0908070605)"
    using a5hash_small_mid [of "[1, 2, 3, 4, 5, 6, 7, 8, 9, 10, 11, 12, 13, 14, 15, 16]"]
    unfolding l by (simp add: spec_load4_def)
  then show ?thesis
    by (simp add: a5hash_mo_div a5hash_small_windows_def)
qed

section \<open>One call of a5rand\<close>

text \<open>
  Claim C7. One call of \<open>a5rand\<close> on the state \<open>(s1, s2)\<close> replaces the state by the low
  and high 64 bits of the product \<open>(s1 + 0x5555555555555555) * (s2 + 0xAAAAAAAAAAAAAAAA)\<close>,
  the sums taken modulo \<open>2^64\<close>, and returns the exclusive or of the two new words. The
  state after one call is the result of one such step.
\<close>

theorem a5rand_one_step:
  "a5rand impl (s1, s2) = spec_rand_step (s1, s2)
   \<and> a5rand_state impl 1 (s1, s2) = snd (spec_rand_step (s1, s2))
   \<and> fst (a5rand impl (s1, s2))
        = fst (snd (a5rand impl (s1, s2))) XOR snd (snd (a5rand impl (s1, s2)))
   \<and> unat (snd (snd (a5rand impl (s1, s2)))) * 2 ^ 64 + unat (fst (snd (a5rand impl (s1, s2))))
        = unat (s1 + 0x5555555555555555) * unat (s2 + 0xAAAAAAAAAAAAAAAA)"
proof -
  have e: "a5rand impl (s1, s2) = spec_rand_step (s1, s2)"
    by (simp add: a5rand_def spec_rand_step_def a5hash_umul128_exact exact_mul128_def
        A5HASH_VAL01_def A5HASH_VAL10_def Let_def)
  have s: "snd (a5rand impl (s1, s2))
             = exact_mul128 (s1 + 0x5555555555555555) (s2 + 0xAAAAAAAAAAAAAAAA)"
    by (simp add: a5rand_def a5hash_umul128_exact A5HASH_VAL01_def A5HASH_VAL10_def
        Let_def split_beta)
  have x: "fst (a5rand impl (s1, s2))
        = fst (snd (a5rand impl (s1, s2))) XOR snd (snd (a5rand impl (s1, s2)))"
    by (simp add: a5rand_def Let_def split_beta)
  have v: "unat (snd (snd (a5rand impl (s1, s2)))) * 2 ^ 64
             + unat (fst (snd (a5rand impl (s1, s2))))
           = unat (s1 + 0x5555555555555555) * unat (s2 + 0xAAAAAAAAAAAAAAAA)"
    using exact_mul128_value [of "s1 + 0x5555555555555555" "s2 + 0xAAAAAAAAAAAAAAAA"]
    unfolding s by simp
  have t: "a5rand_state impl 1 (s1, s2) = snd (spec_rand_step (s1, s2))"
    by (simp add: a5rand_state_def e)
  from e t x v show ?thesis by (intro conjI)
qed

section \<open>The state transition of a5rand\<close>

lemma exact_mul128_commute: "exact_mul128 u v = exact_mul128 v u"
  by (simp add: exact_mul128_def mult.commute)

lemma a5rand_exact:
  "a5rand impl (s1, s2) =
     (let r = exact_mul128 (s1 + 0x5555555555555555) (s2 + 0xAAAAAAAAAAAAAAAA)
      in (fst r XOR snd r, r))"
  by (simp add: a5rand_def a5hash_umul128_exact A5HASH_VAL01_def A5HASH_VAL10_def
      Let_def split_beta)

lemma a5rand_swapped:
  "a5rand impl (s2 + 0x5555555555555555, s1 - 0x5555555555555555) = a5rand impl (s1, s2)"
proof -
  have "s2 + 0x5555555555555555 + 0x5555555555555555 = s2 + (0xAAAAAAAAAAAAAAAA :: u64)"
    by simp
  moreover have "s1 - 0x5555555555555555 + 0xAAAAAAAAAAAAAAAA = s1 + (0x5555555555555555 :: u64)"
    by simp
  ultimately show ?thesis
    unfolding a5rand_exact
    by (simp only: exact_mul128_commute [of "s2 + 0xAAAAAAAAAAAAAAAA"])
qed

text \<open>
  Claim C10. The state \<open>(s2 + 0x5555555555555555, s1 - 0x5555555555555555)\<close> has the same
  output and the same successor as \<open>(s1, s2)\<close>; the two states differ exactly when
  \<open>s1 \<noteq> s2 + 0x5555555555555555\<close>; so two different states have the same successor.
\<close>

theorem a5rand_not_injective:
  "a5rand impl (s2 + 0x5555555555555555, s1 - 0x5555555555555555) = a5rand impl (s1, s2)
   \<and> (((s2 + 0x5555555555555555, s1 - 0x5555555555555555) = (s1, s2))
        = (s1 = s2 + 0x5555555555555555))
   \<and> (\<exists>st st'. st \<noteq> st' \<and> snd (a5rand impl st) = snd (a5rand impl st')
         \<and> fst (a5rand impl st) = fst (a5rand impl st'))
   \<and> \<not> inj (\<lambda>st. snd (a5rand impl st))"
proof -
  have d: "((s2 + 0x5555555555555555, s1 - 0x5555555555555555) = (s1, s2))
        = (s1 = s2 + 0x5555555555555555)"
    by auto
  have n: "(0x5555555555555555 :: u64, 0 - 0x5555555555555555 :: u64) \<noteq> (0, 0)"
    by simp
  have s: "a5rand impl (0 + 0x5555555555555555, 0 - 0x5555555555555555) = a5rand impl (0, 0)"
    by (rule a5rand_swapped)
  have e: "\<exists>st st'. st \<noteq> st' \<and> snd (a5rand impl st) = snd (a5rand impl st')
         \<and> fst (a5rand impl st) = fst (a5rand impl st')"
    using n s by (intro exI [of _ "(0x5555555555555555, 0 - 0x5555555555555555)"] exI [of _ "(0, 0)"]) simp
  have "\<not> inj (\<lambda>st. snd (a5rand impl st))"
  proof
    assume "inj (\<lambda>st. snd (a5rand impl st))"
    moreover have "snd (a5rand impl (0 + 0x5555555555555555, 0 - 0x5555555555555555))
        = snd (a5rand impl (0, 0))"
      by (simp only: s)
    ultimately have "(0 + 0x5555555555555555 :: u64, 0 - 0x5555555555555555 :: u64) = (0, 0)"
      by (rule injD)
    then show False by simp
  qed
  with a5rand_swapped d e show ?thesis by (intro conjI)
qed

section \<open>The loop for messages of more than 16 bytes\<close>

lemma spec_stream_while_exit:
  assumes "0 < r"
  shows "case spec_stream_while m v01 v10 k r s1 s2 of
           (pos, remaining, t1, t2) \<Rightarrow>
             pos = k + 16 * ((r - 1) div 16) \<and> pos + remaining = k + r
             \<and> 0 < remaining \<and> remaining \<le> 16"
  using assms
proof (induction m v01 v10 k r s1 s2 rule: spec_stream_while.induct)
  case (1 m val01 val10 pos remaining Seed1 Seed2)
  show ?case
  proof (cases "remaining > 16")
    case True
    obtain lo hi where p: "exact_mul128 (Seed1 XOR spec_load8 m pos)
        (Seed2 XOR spec_load8 m (pos + 8)) = (lo, hi)"
      by (cases "exact_mul128 (Seed1 XOR spec_load8 m pos) (Seed2 XOR spec_load8 m (pos + 8))")
    have d: "(remaining - 1) div 16 = Suc ((remaining - 16 - 1) div 16)"
      using True le_div_geq [of 16 "remaining - 1"] by simp
    from True have "0 < remaining - 16" by simp
    with "1.IH" [OF True p [symmetric] refl] True p d show ?thesis
      by (subst spec_stream_while.simps) (auto simp add: split_beta)
  next
    case False
    with "1.prems" show ?thesis
      by (subst spec_stream_while.simps) simp
  qed
qed

lemma a5hash_loop_spec:
  assumes "16 < r" "k + r = length m"
  shows "a5hash_loop impl (mem_of m) v01 v10 (int k) r s1 s2 =
           Some (case spec_stream_while m v01 v10 k r s1 s2 of
                   (pos, remaining, t1, t2) \<Rightarrow> (int pos, remaining, t1, t2))"
  using assms
proof (induction r arbitrary: k s1 s2 rule: less_induct)
  case (less r)
  obtain lo hi where p: "exact_mul128 (s1 XOR spec_load8 m k) (s2 XOR spec_load8 m (k + 8))
      = (lo, hi)"
    by (cases "exact_mul128 (s1 XOR spec_load8 m k) (s2 XOR spec_load8 m (k + 8))")
  have l1: "a5hash_lu64 (mem_of m) (int k) = Some (spec_load8 m k)"
    using less.prems by (intro a5hash_lu64_mem_of) simp
  have "a5hash_lu64 (mem_of m) (int (k + 8)) = Some (spec_load8 m (k + 8))"
    using less.prems by (intro a5hash_lu64_mem_of) simp
  then have l2: "a5hash_lu64 (mem_of m) (int k + 8) = Some (spec_load8 m (k + 8))"
    by simp
  have w: "spec_stream_while m v01 v10 k r s1 s2
            = spec_stream_while m v01 v10 (k + 16) (r - 16) (lo + v01) (hi + v10)"
    using less.prems(1) p by (subst spec_stream_while.simps) simp
  have a: "a5hash_loop impl (mem_of m) v01 v10 (int k) r s1 s2 =
             (if r - 16 > 16
              then a5hash_loop impl (mem_of m) v01 v10 (int (k + 16)) (r - 16) (lo + v01) (hi + v10)
              else Some (int (k + 16), r - 16, lo + v01, hi + v10))"
    by (subst a5hash_loop.simps) (simp add: l1 l2 a5hash_umul128_exact p)
  show ?case
  proof (cases "r - 16 > 16")
    case True
    have "a5hash_loop impl (mem_of m) v01 v10 (int (k + 16)) (r - 16) (lo + v01) (hi + v10) =
           Some (case spec_stream_while m v01 v10 (k + 16) (r - 16) (lo + v01) (hi + v10) of
                   (pos, remaining, t1, t2) \<Rightarrow> (int pos, remaining, t1, t2))"
      using True less.prems by (intro less.IH) simp_all
    with True show ?thesis by (simp only: a w if_True)
  next
    case False
    then have "spec_stream_while m v01 v10 (k + 16) (r - 16) (lo + v01) (hi + v10)
        = (k + 16, r - 16, lo + v01, hi + v10)"
      by (subst spec_stream_while.simps) simp
    with False show ?thesis by (simp add: a w)
  qed
qed

lemma a5hash_stream_digest:
  assumes "16 < length m"
  shows "a5hash impl (mem_of m) (length m) seed = Some (spec_stream_digest m seed)"
proof -
  define n where "n = length m"
  obtain S1 S2 v10 where i: "spec_seed_fold n seed = (S1, S2, v10)"
    by (cases "spec_seed_fold n seed")
  define v01 where "v01 = 0x5555555555555555 XOR S1"
  obtain pos r t1 t2 where w: "spec_stream_while m v01 v10 0 n S1 S2 = (pos, r, t1, t2)"
    by (cases "spec_stream_while m v01 v10 0 n S1 S2")
  have n: "16 < n" "length m = n" using assms by (simp_all add: n_def)
  from n(1) have "0 < n" by linarith
  then have e: "pos + r = n" "0 < r"
    using spec_stream_while_exit [where r = n and k = 0 and m = m and ?v01.0 = v01
        and ?v10.0 = v10 and ?s1.0 = S1 and ?s2.0 = S2] by (simp_all add: w)
  have l: "a5hash_loop impl (mem_of m) v01 v10 0 n S1 S2 = Some (int pos, r, t1, t2)"
    using a5hash_loop_spec [where r = n and k = 0 and m = m and impl = impl and ?v01.0 = v01
        and ?v10.0 = v10 and ?s1.0 = S1 and ?s2.0 = S2] n by (simp add: w)
  have o1: "int pos + int r - 16 = int (n - 16)" "int pos + int r - 8 = int (n - 8)"
    using e n(1) by simp_all
  have a: "a5hash_lu64 (mem_of m) (int (n - 16)) = Some (spec_load8 m (n - 16))"
    using n by (intro a5hash_lu64_mem_of) simp
  have b: "a5hash_lu64 (mem_of m) (int (n - 8)) = Some (spec_load8 m (n - 8))"
    using n by (intro a5hash_lu64_mem_of) simp
  have o2: "int n - 16 = int (n - 16)" "int n - 8 = int (n - 8)"
    using n(1) by simp_all
  have "\<not> n < 17" using n(1) by simp
  then have "a5hash impl (mem_of m) n seed = Some (spec_finalize v01 t1 t2
       (spec_load8 m (n - 16)) (spec_load8 m (n - 8)))"
    by (simp add: a5hash_def a5hash_init_spec i A5HASH_VAL01_def v01_def [symmetric] l o1 o2 a b
        a5hash_final_spec del: of_nat_diff)
  moreover have "spec_stream_digest m seed = spec_finalize v01 t1 t2
       (spec_load8 m (n - 16)) (spec_load8 m (n - 8))"
    by (simp add: spec_stream_digest_def n_def [symmetric] i v01_def [symmetric] w)
  ultimately show ?thesis by (simp add: n_def)
qed

text \<open>
  Claim C2. For a message of more than 16 bytes the code sets \<open>val01 ^= Seed1\<close> and then
  behaves as the loop of the specification: while more than 16 bytes remain it multiplies
  the seeds mixed with the two 8-byte words at the current position, advances by 16 and
  adds \<open>val01\<close> and \<open>val10\<close>. The \<open>do ... while\<close> loop of the code and the \<open>while\<close> loop of the
  specification leave the same state; the loop ends after \<open>(length - 1) div 16\<close> steps with
  1 to 16 bytes remaining, so it stops when exactly 16 bytes remain; \<open>a\<close> and \<open>b\<close> are
  the 8-byte words at the offsets \<open>length - 16\<close> and \<open>length - 8\<close> of the message.
\<close>

theorem a5hash_long_message:
  assumes "16 < length m"
  shows "a5hash_bytes impl m seed = Some (spec_stream_digest m seed)
         \<and> a5hash_loop impl (mem_of m) v01 v10 0 (length m) s1 s2
             = Some (case spec_stream_while m v01 v10 0 (length m) s1 s2 of
                       (pos, remaining, t1, t2) \<Rightarrow> (int pos, remaining, t1, t2))
         \<and> (case spec_stream_while m v01 v10 0 (length m) s1 s2 of
               (pos, remaining, t1, t2) \<Rightarrow>
                 pos = 16 * ((length m - 1) div 16) \<and> pos + remaining = length m
                 \<and> 0 < remaining \<and> remaining \<le> 16)"
proof -
  from assms have p: "0 < length m" by linarith
  have "a5hash_loop impl (mem_of m) v01 v10 (int 0) (length m) s1 s2
             = Some (case spec_stream_while m v01 v10 0 (length m) s1 s2 of
                       (pos, remaining, t1, t2) \<Rightarrow> (int pos, remaining, t1, t2))"
    using assms by (intro a5hash_loop_spec) simp_all
  then show ?thesis
    using a5hash_stream_digest [OF assms, of impl seed]
      spec_stream_while_exit [OF p, where m = m and k = 0 and ?v01.0 = v01 and ?v10.0 = v10
        and ?s1.0 = s1 and ?s2.0 = s2]
    by (simp add: a5hash_bytes_def)
qed

theorem a5hash_long_message_witness:
  "16 < length [1, 2, 3, 4, 5, 6, 7, 8, 9, 10, 11, 12, 13, 14, 15, 16, 17, 18, 19, 20, 21, 22,
                23, 24, 25, 26, 27, 28, 29, 30, 31, 32 :: u8]
   \<and> a5hash_bytes Portable32
        [1, 2, 3, 4, 5, 6, 7, 8, 9, 10, 11, 12, 13, 14, 15, 16, 17, 18, 19, 20, 21, 22,
         23, 24, 25, 26, 27, 28, 29, 30, 31, 32] 0 = Some 0xFD5AA0207667CAE2
   \<and> a5hash_loop Portable32
        (mem_of [1, 2, 3, 4, 5, 6, 7, 8, 9, 10, 11, 12, 13, 14, 15, 16, 17, 18, 19, 20, 21, 22,
                 23, 24, 25, 26, 27, 28, 29, 30, 31, 32]) 0 0 0 32 0 0
        = Some (16, 16, 0x9934E09B643A1C09, 0x0080E93A759BADAC)"
proof -
  have l: "length [1, 2, 3, 4, 5, 6, 7, 8, 9, 10, 11, 12, 13, 14, 15, 16, 17, 18, 19, 20, 21, 22,
                23, 24, 25, 26, 27, 28, 29, 30, 31, 32 :: u8] = 32" by simp
  show ?thesis
    using a5hash_long_message [of "[1, 2, 3, 4, 5, 6, 7, 8, 9, 10, 11, 12, 13, 14, 15, 16, 17, 18,
       19, 20, 21, 22, 23, 24, 25, 26, 27, 28, 29, 30, 31, 32]" Portable32 0 0 0 0 0]
    unfolding l
    by (simp add: spec_stream_digest_def spec_stream_while.simps spec_load8_def
        spec_seed_fold_def spec_finalize_def exact_mul128_def)
qed

section \<open>Every load stays inside the message\<close>

lemma load_bytes_mem_of_range:
  "load_bytes (mem_of msg) p n =
     (if n = 0 then Some []
      else if 0 \<le> p \<and> p + int n \<le> int (length msg)
      then Some (take n (drop (nat p) msg)) else None)"
proof (cases "n = 0")
  case True
  then show ?thesis by simp
next
  case False
  show ?thesis
  proof (cases "0 \<le> p \<and> p + int n \<le> int (length msg)")
    case True
    then have "nat p + n \<le> length msg" by linarith
    then have "load_bytes (mem_of msg) (int (nat p)) n = Some (take n (drop (nat p) msg))"
      by (rule load_bytes_mem_of)
    with True False show ?thesis by simp
  next
    case out: False
    have "load_bytes (mem_of msg) p n = None"
      using False out
    proof (induction n arbitrary: p)
      case 0
      then show ?case by simp
    next
      case (Suc n)
      show ?case
      proof (cases "0 \<le> p \<and> p < int (length msg)")
        case inside: True
        then have n: "n \<noteq> 0" using Suc.prems(2) by (cases n) auto
        have "\<not> (0 \<le> p + 1 \<and> p + 1 + int n \<le> int (length msg))"
          using Suc.prems(2) inside by auto
        with n have "load_bytes (mem_of msg) (p + 1) n = None"
          by (rule Suc.IH)
        then show ?thesis by (simp split: option.split)
      next
        case False
        then have "mem_of msg p = None" by (auto simp add: mem_of_def)
        then show ?thesis by simp
      qed
    qed
    with False out show ?thesis by simp
  qed
qed

lemma a5hash_empty_message: "a5hash impl mem 0 seed = Some (spec_small_digest 0 seed 0 0)"
  by (simp add: a5hash_small_digest a5hash_small_def)

text \<open>
  Claim C8. On a buffer that holds exactly the bytes of the message, loads of 1, 4 and 8
  bytes succeed exactly when they lie inside the index range of the message, a failed
  load makes the result \<open>None\<close>, and \<open>a5hash\<close> returns a digest for every message and
  seed: no load of the function leaves the range. For length 0 the digest is the same
  for every memory, also for the one with no readable byte: no load is made.
\<close>

theorem a5hash_loads_in_range:
  "(\<exists>h. a5hash impl (mem_of msg) (length msg) seed = Some h)
   \<and> (\<exists>h. \<forall>mem. a5hash impl mem 0 seed = Some h)
   \<and> (mem_of msg p \<noteq> None) = (0 \<le> p \<and> p < int (length msg))
   \<and> (a5hash_lu32 (mem_of msg) p \<noteq> None) = (0 \<le> p \<and> p + 4 \<le> int (length msg))
   \<and> (a5hash_lu64 (mem_of msg) p \<noteq> None) = (0 \<le> p \<and> p + 8 \<le> int (length msg))"
proof -
  have "\<exists>h. a5hash impl (mem_of msg) (length msg) seed = Some h"
  proof -
    consider "length msg \<le> 3" | "4 \<le> length msg" "length msg \<le> 16" | "16 < length msg"
      by linarith
    then show ?thesis
    proof cases
      case 1
      then show ?thesis by (simp add: a5hash_small_digest a5hash_small_short)
    next
      case 2
      then have "length msg < 17" by simp
      then show ?thesis using a5hash_small_mid [OF 2] by (simp add: a5hash_small_digest)
    next
      case 3
      then show ?thesis by (simp add: a5hash_stream_digest)
    qed
  qed
  moreover have "\<exists>h. \<forall>mem. a5hash impl mem 0 seed = Some h"
    by (simp add: a5hash_empty_message)
  moreover have "(mem_of msg p \<noteq> None) = (0 \<le> p \<and> p < int (length msg))"
    by (simp add: mem_of_def)
  moreover have "(a5hash_lu32 (mem_of msg) p \<noteq> None) = (0 \<le> p \<and> p + 4 \<le> int (length msg))"
    by (simp add: a5hash_lu32_def load_bytes_mem_of_range)
  moreover have "(a5hash_lu64 (mem_of msg) p \<noteq> None) = (0 \<le> p \<and> p + 8 \<le> int (length msg))"
    by (simp add: a5hash_lu64_def load_bytes_mem_of_range)
  ultimately show ?thesis by (intro conjI)
qed

section \<open>Every byte of a message of 4 to 16 bytes reaches a or b\<close>

lemma bytes_le_bit:
  "bit (bytes_le bs :: 'a::len word) n \<longleftrightarrow>
     n < LENGTH('a) \<and> n < 8 * length bs \<and> bit (bs ! (n div 8)) (n mod 8)"
proof (induction bs arbitrary: n)
  case Nil
  then show ?case by simp
next
  case (Cons b bs)
  show ?case
  proof (cases "n < 8")
    case True
    then have "n div 8 = 0" "n mod 8 = n" by simp_all
    with True show ?thesis
      by (auto simp add: bit_or_iff bit_push_bit_iff bit_ucast_iff)
  next
    case False
    then have d: "n div 8 = Suc ((n - 8) div 8)" "n mod 8 = (n - 8) mod 8"
      using le_div_geq [of 8 n] le_mod_geq [of 8 n] by simp_all
    have "\<not> bit b n" using False bit_u8_range [of b n] by auto
    moreover have "n - 8 < 8 * length bs \<longleftrightarrow> n < 8 * length (b # bs)"
      using False by auto
    moreover have "n < LENGTH('a) \<Longrightarrow> n - 8 < LENGTH('a)" by simp
    ultimately show ?thesis
      using False Cons.IH [of "n - 8"]
      by (auto simp add: bit_or_iff bit_push_bit_iff bit_ucast_iff d)
  qed
qed

lemma spec_load4_bit:
  assumes "k + 4 \<le> length m"
  shows "bit (spec_load4 m k) n \<longleftrightarrow> n < 32 \<and> bit (m ! (k + n div 8)) (n mod 8)"
proof (cases "n < 32")
  case True
  then have "n div 8 < 4" by simp
  with assms have "take 4 (drop k m) ! (n div 8) = m ! (k + n div 8)"
    by simp
  with True assms show ?thesis
    by (simp add: spec_load4_def bit_ucast_iff bytes_le_bit)
next
  case False
  then show ?thesis
    by (simp add: spec_load4_def bit_ucast_iff bytes_le_bit)
qed

lemma window_pair_bit:
  assumes "k1 + 4 \<le> length m" "k2 + 4 \<le> length m"
  shows "bit (push_bit 32 (spec_load4 m k1) OR spec_load4 m k2) n \<longleftrightarrow>
           (if n < 32 then bit (m ! (k2 + n div 8)) (n mod 8)
            else n < 64 \<and> bit (m ! (k1 + (n - 32) div 8)) ((n - 32) mod 8))"
  using assms by (auto simp add: bit_or_iff bit_push_bit_iff spec_load4_bit)

lemma div_mod_8_add:
  fixes j t :: nat
  assumes "t < 8"
  shows "(8 * j + t) div 8 = j" "(8 * j + t) mod 8 = t"
  using assms by simp_all

lemma window_pair_bytes:
  assumes m: "k1 + 4 \<le> length m" "k2 + 4 \<le> length m"
    and m': "k1 + 4 \<le> length m'" "k2 + 4 \<le> length m'"
    and eq: "push_bit 32 (spec_load4 m k1) OR spec_load4 m k2
           = push_bit 32 (spec_load4 m' k1) OR spec_load4 m' k2"
    and j: "j < 4"
  shows "m ! (k1 + j) = m' ! (k1 + j)" and "m ! (k2 + j) = m' ! (k2 + j)"
proof -
  have b: "bit (push_bit 32 (spec_load4 m k1) OR spec_load4 m k2) n
        \<longleftrightarrow> bit (push_bit 32 (spec_load4 m' k1) OR spec_load4 m' k2) n" for n
    by (simp only: eq)
  show "m ! (k2 + j) = m' ! (k2 + j)"
  proof (rule bit_word_eqI)
    fix t assume "t < LENGTH(8)"
    then have t: "t < 8" by simp
    with j have n: "8 * j + t < 32" by simp
    from b [of "8 * j + t"] show "bit (m ! (k2 + j)) t \<longleftrightarrow> bit (m' ! (k2 + j)) t"
      unfolding window_pair_bit [OF m] window_pair_bit [OF m'] div_mod_8_add [OF t]
      using n by simp
  qed
  show "m ! (k1 + j) = m' ! (k1 + j)"
  proof (rule bit_word_eqI)
    fix t assume "t < LENGTH(8)"
    then have t: "t < 8" by simp
    with j have n: "\<not> 32 + (8 * j + t) < 32" "32 + (8 * j + t) < 64"
      "32 + (8 * j + t) - 32 = 8 * j + t" by simp_all
    from j t have "8 * j + t < 32" by simp
    with b [of "32 + (8 * j + t)"] show "bit (m ! (k1 + j)) t \<longleftrightarrow> bit (m' ! (k1 + j)) t"
      unfolding window_pair_bit [OF m] window_pair_bit [OF m'] n div_mod_8_add [OF t]
      by simp
  qed
qed

lemma small_windows_eq:
  assumes "4 \<le> n"
  shows "a5hash_small_windows 0 n = [0, int (n - 4), int (4 * (n div 8)), int (n - 4 - 4 * (n div 8))]"
proof -
  have "4 * (n div 8) + 4 \<le> n"
    using assms by presburger
  then have "int (n - 4) - int (n div 8 * 4) = int (n - 4 - 4 * (n div 8))"
    by simp
  moreover have "0 + int n - 4 = int (n - 4)"
    using assms by simp
  moreover have "0 + int (n div 8 * 4) = int (4 * (n div 8))"
    by simp
  ultimately show ?thesis
    unfolding a5hash_small_windows_def a5hash_mo_div Let_def by (simp only:)
qed

lemma small_windows_cover:
  fixes n i :: nat
  assumes "4 \<le> n" "n \<le> 16" "i < n"
  shows "i < 4 \<or> (n - 4 \<le> i \<and> i < n) \<or> (4 * (n div 8) \<le> i \<and> i < 4 * (n div 8) + 4)
         \<or> (n - 4 - 4 * (n div 8) \<le> i \<and> i < n - 4 * (n div 8))"
proof -
  consider "n < 8" | "8 \<le> n" "n < 16" | "n = 16" using assms by linarith
  then show ?thesis
  proof cases
    case 1
    with assms have "n div 8 = 0" by simp
    with 1 assms show ?thesis by auto
  next
    case 2
    then have "n div 8 = 1" by simp
    with 2 assms show ?thesis by auto
  next
    case 3
    with assms show ?thesis by auto
  qed
qed

lemma a5hash_small_by_windows:
  assumes "3 < n"
  shows "a5hash_small mem Msg n =
           (let ws = a5hash_small_windows Msg n
            in do {
              a_hi \<leftarrow> a5hash_lu32 mem (ws ! 0);
              a_lo \<leftarrow> a5hash_lu32 mem (ws ! 1);
              b_hi \<leftarrow> a5hash_lu32 mem (ws ! 2);
              b_lo \<leftarrow> a5hash_lu32 mem (ws ! 3);
              Some (push_bit 32 a_hi OR a_lo, push_bit 32 b_hi OR b_lo)
            })"
  using assms by (simp add: a5hash_small_def a5hash_small_windows_def Let_def)

lemma a5hash_small_injective:
  assumes len: "4 \<le> length m" "length m \<le> 16" "length m' = length m"
    and eq: "a5hash_small (mem_of m') 0 (length m') = a5hash_small (mem_of m) 0 (length m)"
    and i: "i < length m"
  shows "m' ! i = m ! i"
proof -
  define n where "n = length m"
  define mo where "mo = n div 8"
  have n: "4 \<le> n" "n \<le> 16" "length m = n" "length m' = n" "i < n"
    using len i by (simp_all add: n_def)
  have mo: "mo * 4 + 4 \<le> n"
    using n(1) unfolding mo_def by presburger
  have w: "0 + 4 \<le> length m" "n - 4 + 4 \<le> length m" "mo * 4 + 4 \<le> length m"
    "n - 4 - mo * 4 + 4 \<le> length m"
    using n(1) mo by (simp_all add: n(3))
  have w': "0 + 4 \<le> length m'" "n - 4 + 4 \<le> length m'" "mo * 4 + 4 \<le> length m'"
    "n - 4 - mo * 4 + 4 \<le> length m'"
    using n(1) mo by (simp_all add: n(4))
  have s: "a5hash_small (mem_of m) 0 (length m) =
           Some (push_bit 32 (spec_load4 m 0) OR spec_load4 m (n - 4),
                 push_bit 32 (spec_load4 m (mo * 4)) OR spec_load4 m (n - 4 - mo * 4))"
    using a5hash_small_mid [of m] n(1,2) by (simp add: n(3) mo_def)
  have s': "a5hash_small (mem_of m') 0 (length m') =
           Some (push_bit 32 (spec_load4 m' 0) OR spec_load4 m' (n - 4),
                 push_bit 32 (spec_load4 m' (mo * 4)) OR spec_load4 m' (n - 4 - mo * 4))"
    using a5hash_small_mid [of m'] n(1,2) by (simp add: n(4) mo_def)
  from eq have a: "push_bit 32 (spec_load4 m' 0) OR spec_load4 m' (n - 4)
                 = push_bit 32 (spec_load4 m 0) OR spec_load4 m (n - 4)"
    and b: "push_bit 32 (spec_load4 m' (mo * 4)) OR spec_load4 m' (n - 4 - mo * 4)
          = push_bit 32 (spec_load4 m (mo * 4)) OR spec_load4 m (n - 4 - mo * 4)"
    unfolding s s' by simp_all
  from small_windows_cover [OF n(1,2,5)]
  consider "i < 4" | "n - 4 \<le> i" "i < n" | "mo * 4 \<le> i" "i < mo * 4 + 4"
    | "n - 4 - mo * 4 \<le> i" "i < n - mo * 4"
    by (auto simp add: mo_def mult.commute)
  then show ?thesis
  proof cases
    case 1
    with window_pair_bytes(1) [OF w'(1,2) w(1,2) a, of i] show ?thesis by simp
  next
    case 2
    then have "i - (n - 4) < 4" "n - 4 + (i - (n - 4)) = i" using n(1) by simp_all
    with window_pair_bytes(2) [OF w'(1,2) w(1,2) a, of "i - (n - 4)"] show ?thesis by simp
  next
    case 3
    then have "i - mo * 4 < 4" "mo * 4 + (i - mo * 4) = i" by simp_all
    with window_pair_bytes(1) [OF w'(3,4) w(3,4) b, of "i - mo * 4"] show ?thesis by simp
  next
    case 4
    then have "i - (n - 4 - mo * 4) < 4" "n - 4 - mo * 4 + (i - (n - 4 - mo * 4)) = i"
      using mo by simp_all
    with window_pair_bytes(2) [OF w'(3,4) w(3,4) b, of "i - (n - 4 - mo * 4)"]
    show ?thesis by simp
  qed
qed

text \<open>
  Claim C6. For a message of 4 to 16 bytes, every index \<open>i\<close> below the length lies in one
  of the four 4-byte windows whose addresses the code passes to \<open>a5hash_lu32\<close>, which
  start at \<open>0\<close>, \<open>length - 4\<close>, \<open>4 * mo\<close> and \<open>length - 4 - 4 * mo\<close> with \<open>mo = length div 8\<close>;
  \<open>a\<close> and \<open>b\<close> are made of the four words loaded there; and a message of the same length
  that differs in byte \<open>i\<close> has a different pair \<open>(a, b)\<close>.
\<close>

theorem a5hash_small_covers:
  assumes "4 \<le> length m" "length m \<le> 16" "i < length m"
  shows "(\<exists>w \<in> set (a5hash_small_windows 0 (length m)). w \<le> int i \<and> int i < w + 4)
         \<and> a5hash_small_windows 0 (length m)
             = [0, int (length m - 4), int (4 * (length m div 8)),
                int (length m - 4 - 4 * (length m div 8))]
         \<and> (\<forall>mem. a5hash_small mem 0 (length m) =
               (let ws = a5hash_small_windows 0 (length m)
                in do {
                  a_hi \<leftarrow> a5hash_lu32 mem (ws ! 0);
                  a_lo \<leftarrow> a5hash_lu32 mem (ws ! 1);
                  b_hi \<leftarrow> a5hash_lu32 mem (ws ! 2);
                  b_lo \<leftarrow> a5hash_lu32 mem (ws ! 3);
                  Some (push_bit 32 a_hi OR a_lo, push_bit 32 b_hi OR b_lo)
                }))
         \<and> (\<forall>m'. length m' = length m \<and> m' ! i \<noteq> m ! i \<longrightarrow>
               a5hash_small (mem_of m') 0 (length m') \<noteq> a5hash_small (mem_of m) 0 (length m))"
proof -
  have e: "a5hash_small_windows 0 (length m)
             = [0, int (length m - 4), int (4 * (length m div 8)),
                int (length m - 4 - 4 * (length m div 8))]"
    using assms(1) by (rule small_windows_eq)
  have c: "\<exists>w \<in> set (a5hash_small_windows 0 (length m)). w \<le> int i \<and> int i < w + 4"
  proof -
    have q: "4 * (length m div 8) + 4 \<le> length m"
      using assms(1) by presburger
    from small_windows_cover [OF assms]
    consider "i < 4" | "length m - 4 \<le> i" "i < length m"
      | "4 * (length m div 8) \<le> i" "i < 4 * (length m div 8) + 4"
      | "length m - 4 - 4 * (length m div 8) \<le> i" "i < length m - 4 * (length m div 8)"
      by blast
    then show ?thesis
    proof cases
      case 1
      then show ?thesis unfolding e by simp
    next
      case 2
      then have "int (length m - 4) \<le> int i \<and> int i < int (length m - 4) + 4"
        using assms(1) by linarith
      then show ?thesis unfolding e by simp
    next
      case 3
      then have "int (4 * (length m div 8)) \<le> int i \<and> int i < int (4 * (length m div 8)) + 4"
        by linarith
      then show ?thesis unfolding e by simp
    next
      case 4
      then have "int (length m - 4 - 4 * (length m div 8)) \<le> int i
          \<and> int i < int (length m - 4 - 4 * (length m div 8)) + 4"
        using q by linarith
      then show ?thesis unfolding e by simp
    qed
  qed
  have t: "\<forall>mem. a5hash_small mem 0 (length m) =
               (let ws = a5hash_small_windows 0 (length m)
                in do {
                  a_hi \<leftarrow> a5hash_lu32 mem (ws ! 0);
                  a_lo \<leftarrow> a5hash_lu32 mem (ws ! 1);
                  b_hi \<leftarrow> a5hash_lu32 mem (ws ! 2);
                  b_lo \<leftarrow> a5hash_lu32 mem (ws ! 3);
                  Some (push_bit 32 a_hi OR a_lo, push_bit 32 b_hi OR b_lo)
                })"
    using assms(1) by (intro allI a5hash_small_by_windows) simp
  have d: "\<forall>m'. length m' = length m \<and> m' ! i \<noteq> m ! i \<longrightarrow>
               a5hash_small (mem_of m') 0 (length m') \<noteq> a5hash_small (mem_of m) 0 (length m)"
    using a5hash_small_injective [OF assms(1,2) _ _ assms(3)] by blast
  from c e t d show ?thesis by (intro conjI)
qed

theorem a5hash_small_covers_witness:
  "4 \<le> length [1, 2, 3, 4, 5, 6, 7, 8, 9, 10, 11, 12, 13, 14, 15, 16 :: u8]
   \<and> length [1, 2, 3, 4, 5, 6, 7, 8, 9, 10, 11, 12, 13, 14, 15, 16 :: u8] \<le> 16
   \<and> 5 < length [1, 2, 3, 4, 5, 6, 7, 8, 9, 10, 11, 12, 13, 14, 15, 16 :: u8]
   \<and> a5hash_small_windows 0 16 = [0, 12, 8, 4]
   \<and> a5hash_small (mem_of [1, 2, 3, 4, 5, 0, 7, 8, 9, 10, 11, 12, 13, 14, 15, 16]) 0 16
       \<noteq> a5hash_small (mem_of [1, 2, 3, 4, 5, 6, 7, 8, 9, 10, 11, 12, 13, 14, 15, 16]) 0 16"
proof -
  have l: "length [1, 2, 3, 4, 5, 6, 7, 8, 9, 10, 11, 12, 13, 14, 15, 16 :: u8] = 16"
    "length [1, 2, 3, 4, 5, 0, 7, 8, 9, 10, 11, 12, 13, 14, 15, 16 :: u8] = 16" by simp_all
  have "a5hash_small (mem_of [1, 2, 3, 4, 5, 0, 7, 8, 9, 10, 11, 12, 13, 14, 15, 16]) 0 16
       \<noteq> a5hash_small (mem_of [1, 2, 3, 4, 5, 6, 7, 8, 9, 10, 11, 12, 13, 14, 15, 16]) 0 16"
    using a5hash_small_covers [of "[1, 2, 3, 4, 5, 6, 7, 8, 9, 10, 11, 12, 13, 14, 15, 16]" 5,
        THEN conjunct2, THEN conjunct2, THEN conjunct2,
        THEN spec [of _ "[1, 2, 3, 4, 5, 0, 7, 8, 9, 10, 11, 12, 13, 14, 15, 16]"]]
    unfolding l by simp
  moreover have "a5hash_small_windows 0 16 = [0, 12, 8, 4]"
    using a5hash_small_covers [of "[1, 2, 3, 4, 5, 6, 7, 8, 9, 10, 11, 12, 13, 14, 15, 16]" 5,
        THEN conjunct2, THEN conjunct1]
    unfolding l by simp
  ultimately show ?thesis by simp
qed

section \<open>The period of a5rand\<close>




















end
